theory Spec2Isabelle
  imports Main "HOL-Library.Multiset"
begin

section \<open>The sequence and its iterators\<close>

text \<open>
  The program sorts a \<^verbatim>\<open>std::vector\<close> in place through random-access iterators.
  The vector is a list, an iterator is an integer position into it (\<^verbatim>\<open>begin - 1\<close> is
  formed by \<^verbatim>\<open>partition\<close>, so positions are integers, not naturals), and a function that
  mutates the vector returns the new list.  Dereferencing an iterator outside the vector
  is undefined behaviour in the source; in the model it is the value \<open>None\<close>, and every
  function that dereferences passes \<open>None\<close> on.  The elements are of any linearly ordered
  type (the source is a template; \<^verbatim>\<open>main\<close> uses \<^verbatim>\<open>int\<close>).

  The parameters \<^verbatim>\<open>begin\<close> and \<^verbatim>\<open>end\<close> of the source are written \<open>b\<close> and \<open>e\<close>.
\<close>

definition deref :: "'a list \<Rightarrow> int \<Rightarrow> 'a option" where
  "deref xs i = (if 0 \<le> i \<and> i < int (length xs) then Some (xs ! nat i) else None)"

text \<open>\<^verbatim>\<open>std::iter_swap(l, r)\<close>, called only on iterators that were just dereferenced.\<close>

definition iter_swap :: "'a list \<Rightarrow> int \<Rightarrow> int \<Rightarrow> 'a list" where
  "iter_swap xs l r = xs[nat l := xs ! nat r, nat r := xs ! nat l]"

text \<open>The elements of the range \<^verbatim>\<open>[b, e)\<close> of a vector, as a list of their own.\<close>

definition slice :: "'a list \<Rightarrow> int \<Rightarrow> int \<Rightarrow> 'a list" where
  "slice xs b e = take (nat (e - b)) (drop (nat b) xs)"

section \<open>The partitioner\<close>

text \<open>\<^verbatim>\<open>do ++l; while (*l < ref);\<close> The result is the position where the cursor stops.\<close>

function scan_l :: "'a::linorder list \<Rightarrow> 'a \<Rightarrow> int \<Rightarrow> int option" where
  "scan_l xs ref l =
     (let l' = l + 1 in
      case deref xs l' of
        None \<Rightarrow> None
      | Some v \<Rightarrow> if v < ref then scan_l xs ref l' else Some l')"
  by pat_completeness auto
termination
  by (relation "measure (\<lambda>(xs, ref, l). nat (int (length xs) - l))")
     (auto simp: deref_def split: if_splits)

text \<open>\<^verbatim>\<open>do --r; while (*r > ref);\<close>\<close>

function scan_r :: "'a::linorder list \<Rightarrow> 'a \<Rightarrow> int \<Rightarrow> int option" where
  "scan_r xs ref r =
     (let r' = r - 1 in
      case deref xs r' of
        None \<Rightarrow> None
      | Some v \<Rightarrow> if v > ref then scan_r xs ref r' else Some r')"
  by pat_completeness auto
termination
  by (relation "measure (\<lambda>(xs, ref, r). nat r)")
     (auto simp: deref_def split: if_splits)

lemma deref_Some_iff: "deref xs i = Some v \<longleftrightarrow> 0 \<le> i \<and> i < int (length xs) \<and> v = xs ! nat i"
  by (auto simp: deref_def)

lemma deref_in: "0 \<le> i \<Longrightarrow> i < int (length xs) \<Longrightarrow> deref xs i = Some (xs ! nat i)"
  by (simp add: deref_def)

lemma scan_l_Some:
  "scan_l xs ref l = Some l' \<Longrightarrow>
     l < l' \<and> 0 \<le> l' \<and> l' < int (length xs) \<and> \<not> xs ! nat l' < ref \<and>
     (\<forall>n. l < int n \<and> int n < l' \<longrightarrow> xs ! n < ref)"
proof (induction xs ref l rule: scan_l.induct)
  case (1 xs ref l)
  show ?case
  proof (cases "deref xs (l + 1)")
    case None
    with "1.prems" show ?thesis by (simp add: Let_def)
  next
    case (Some v)
    then have inb: "0 \<le> l + 1" "l + 1 < int (length xs)" and v: "v = xs ! nat (l + 1)"
      by (simp_all add: deref_Some_iff)
    show ?thesis
    proof (cases "v < ref")
      case True
      with Some "1.prems" have "scan_l xs ref (l + 1) = Some l'"
        by (simp add: Let_def)
      from "1.IH"[OF refl Some True this]
      have ih: "l + 1 < l'" "0 \<le> l'" "l' < int (length xs)" "\<not> xs ! nat l' < ref"
        "\<forall>n. l + 1 < int n \<and> int n < l' \<longrightarrow> xs ! n < ref" by simp_all
      have "xs ! n < ref" if "l < int n" "int n < l'" for n
      proof (cases "int n = l + 1")
        case True
        then have "n = nat (l + 1)" by simp
        with \<open>v < ref\<close> v show ?thesis by simp
      next
        case False
        with that ih(5) show ?thesis by simp
      qed
      with ih show ?thesis by simp
    next
      case False
      with Some "1.prems" have "l' = l + 1" by (simp add: Let_def)
      with inb False v show ?thesis by auto
    qed
  qed
qed

lemma scan_r_Some:
  "scan_r xs ref r = Some r' \<Longrightarrow>
     r' < r \<and> 0 \<le> r' \<and> r' < int (length xs) \<and> \<not> ref < xs ! nat r' \<and>
     (\<forall>n. r' < int n \<and> int n < r \<longrightarrow> ref < xs ! n)"
proof (induction xs ref r rule: scan_r.induct)
  case (1 xs ref r)
  show ?case
  proof (cases "deref xs (r - 1)")
    case None
    with "1.prems" show ?thesis by (simp add: Let_def)
  next
    case (Some v)
    then have inb: "0 \<le> r - 1" "r - 1 < int (length xs)" and v: "v = xs ! nat (r - 1)"
      by (simp_all add: deref_Some_iff)
    show ?thesis
    proof (cases "ref < v")
      case True
      with Some "1.prems" have "scan_r xs ref (r - 1) = Some r'"
        by (simp add: Let_def)
      from "1.IH"[OF refl Some True this]
      have ih: "r' < r - 1" "0 \<le> r'" "r' < int (length xs)" "\<not> ref < xs ! nat r'"
        "\<forall>n. r' < int n \<and> int n < r - 1 \<longrightarrow> ref < xs ! n" by simp_all
      have "ref < xs ! n" if "r' < int n" "int n < r" for n
      proof (cases "int n = r - 1")
        case True
        then have "n = nat (r - 1)" by simp
        with \<open>ref < v\<close> v show ?thesis by simp
      next
        case False
        with that ih(5) show ?thesis by simp
      qed
      with ih show ?thesis by simp
    next
      case False
      with Some "1.prems" have "r' = r - 1" by (simp add: Let_def)
      with inb False v show ?thesis by auto
    qed
  qed
qed

lemma scan_l_sentinel:
  "0 \<le> l + 1 \<Longrightarrow> l < int k \<Longrightarrow> k < length xs \<Longrightarrow> \<not> xs ! k < ref \<Longrightarrow>
     \<exists>l'. scan_l xs ref l = Some l' \<and> l' \<le> int k"
proof (induction xs ref l rule: scan_l.induct)
  case (1 xs ref l)
  have inb: "0 \<le> l + 1" "l + 1 < int (length xs)" using "1.prems" by simp_all
  then have d: "deref xs (l + 1) = Some (xs ! nat (l + 1))" by (rule deref_in)
  show ?case
  proof (cases "xs ! nat (l + 1) < ref")
    case True
    have "int k \<noteq> l + 1"
    proof
      assume "int k = l + 1"
      then have "k = nat (l + 1)" by simp
      with True "1.prems"(4) show False by simp
    qed
    then have "l + 1 < int k" using "1.prems"(2) by simp
    with "1.IH"[OF refl d True] "1.prems" inb
    obtain l' where "scan_l xs ref (l + 1) = Some l'" "l' \<le> int k" by auto
    with d True show ?thesis by (subst scan_l.simps) (simp add: Let_def)
  next
    case False
    with d "1.prems"(2) show ?thesis by (subst scan_l.simps) (simp add: Let_def)
  qed
qed

lemma scan_r_sentinel:
  "r \<le> int (length xs) \<Longrightarrow> int j < r \<Longrightarrow> \<not> ref < xs ! j \<Longrightarrow>
     \<exists>r'. scan_r xs ref r = Some r' \<and> int j \<le> r'"
proof (induction xs ref r rule: scan_r.induct)
  case (1 xs ref r)
  have inb: "0 \<le> r - 1" "r - 1 < int (length xs)" using "1.prems" by simp_all
  then have d: "deref xs (r - 1) = Some (xs ! nat (r - 1))" by (rule deref_in)
  show ?case
  proof (cases "ref < xs ! nat (r - 1)")
    case True
    have "int j \<noteq> r - 1"
    proof
      assume "int j = r - 1"
      then have "j = nat (r - 1)" by simp
      with True "1.prems"(3) show False by simp
    qed
    then have "int j < r - 1" using "1.prems"(2) by simp
    with "1.IH"[OF refl d True] "1.prems" inb
    obtain r' where "scan_r xs ref (r - 1) = Some r'" "int j \<le> r'" by auto
    with d True show ?thesis by (subst scan_r.simps) (simp add: Let_def)
  next
    case False
    with d "1.prems"(2) show ?thesis by (subst scan_r.simps) (simp add: Let_def)
  qed
qed

lemma length_iter_swap [simp]: "length (iter_swap xs l r) = length xs"
  by (simp add: iter_swap_def)

text \<open>
  The body of \<^verbatim>\<open>while (true)\<close>: both scans, the test \<^verbatim>\<open>l >= r\<close>, the swap.  The
  result is the returned iterator and the vector as the loop leaves it.
\<close>

function partition_loop :: "'a::linorder list \<Rightarrow> 'a \<Rightarrow> int \<Rightarrow> int \<Rightarrow> (int \<times> 'a list) option" where
  "partition_loop xs ref l r =
     (case scan_l xs ref l of
        None \<Rightarrow> None
      | Some l' \<Rightarrow>
          (case scan_r xs ref r of
             None \<Rightarrow> None
           | Some r' \<Rightarrow>
               if l' \<ge> r' then Some (r', xs)
               else partition_loop (iter_swap xs l' r') ref l' r'))"
  by pat_completeness auto
termination
proof (relation "measure (\<lambda>(xs, ref, l, r). nat (int (length xs) - l))", goal_cases)
  case 1
  show ?case by simp
next
  case (2 xs ref l r l' r')
  from scan_l_Some[OF 2(1)] show ?case by simp
qed

text \<open>\<^verbatim>\<open>partition(begin, end, ref)\<close>\<close>

definition partition_it :: "'a::linorder list \<Rightarrow> int \<Rightarrow> int \<Rightarrow> 'a \<Rightarrow> (int \<times> 'a list) option" where
  "partition_it xs b e ref =
     (if b \<ge> e then Some (b, xs)
      else partition_loop xs ref (b - 1) e)"

lemma iter_swap_nth:
  "0 \<le> l \<Longrightarrow> l < int (length xs) \<Longrightarrow> 0 \<le> r \<Longrightarrow> r < int (length xs) \<Longrightarrow>
     iter_swap xs l r ! n =
       (if int n = r then xs ! nat l else if int n = l then xs ! nat r else xs ! n)"
  by (auto simp: iter_swap_def nth_list_update)

lemma mset_iter_swap:
  "0 \<le> l \<Longrightarrow> l < int (length xs) \<Longrightarrow> 0 \<le> r \<Longrightarrow> r < int (length xs) \<Longrightarrow>
     mset (iter_swap xs l r) = mset xs"
  by (simp add: iter_swap_def mset_swap)

lemma partition_loop_frame:
  "partition_loop xs ref l r = Some (m, xs') \<Longrightarrow>
     length xs' = length xs \<and> mset xs' = mset xs \<and>
     (\<forall>n. int n \<le> l \<or> r \<le> int n \<longrightarrow> xs' ! n = xs ! n)"
proof (induction xs ref l r rule: partition_loop.induct)
  case (1 xs ref l r)
  from "1.prems" obtain l' where l': "scan_l xs ref l = Some l'"
    by (subst (asm) partition_loop.simps) (auto split: option.splits)
  from "1.prems" l' obtain r' where r': "scan_r xs ref r = Some r'"
    by (subst (asm) partition_loop.simps) (auto split: option.splits)
  note L = scan_l_Some[OF l'] and R = scan_r_Some[OF r']
  show ?case
  proof (cases "r' \<le> l'")
    case True
    with "1.prems" l' r' show ?thesis
      by (subst (asm) partition_loop.simps) simp
  next
    case False
    let ?ys = "iter_swap xs l' r'"
    from False "1.prems" l' r' have "partition_loop ?ys ref l' r' = Some (m, xs')"
      by (subst (asm) partition_loop.simps) simp
    from "1.IH"[OF l' r' False this]
    have ih: "length xs' = length ?ys" "mset xs' = mset ?ys"
      "\<forall>n. int n \<le> l' \<or> r' \<le> int n \<longrightarrow> xs' ! n = ?ys ! n" by simp_all
    have "xs' ! n = xs ! n" if "int n \<le> l \<or> r \<le> int n" for n
    proof -
      from that L R False have n: "int n \<noteq> l'" "int n \<noteq> r'" "int n \<le> l' \<or> r' \<le> int n"
        by auto
      from n(3) ih(3) have "xs' ! n = ?ys ! n" by blast
      also from n(1,2) L R have "?ys ! n = xs ! n" by (simp add: iter_swap_nth)
      finally show ?thesis .
    qed
    with ih L R show ?thesis by (simp add: mset_iter_swap)
  qed
qed

lemma partition_loop_post:
  assumes "0 \<le> b" "e \<le> int (length xs)" "b - 1 \<le> l" "l < r" "r \<le> e"
    and "\<exists>k. l < int k \<and> int k < e \<and> \<not> xs ! k < ref"
    and "\<exists>j. b \<le> int j \<and> int j < r \<and> \<not> ref < xs ! j"
    and "\<forall>n. b \<le> int n \<and> int n \<le> l \<longrightarrow> xs ! n \<le> ref"
    and "\<forall>n. r \<le> int n \<and> int n < e \<longrightarrow> ref \<le> xs ! n"
  shows "\<exists>m xs'. partition_loop xs ref l r = Some (m, xs') \<and> b \<le> m \<and> m < e \<and>
           (\<forall>n. b \<le> int n \<and> int n \<le> m \<longrightarrow> xs' ! n \<le> ref) \<and>
           (\<forall>n. m < int n \<and> int n < e \<longrightarrow> ref \<le> xs' ! n)"
  using assms
proof (induction xs ref l r rule: partition_loop.induct)
  case (1 xs ref l r)
  note b0 = "1.prems"(1) and elen = "1.prems"(2) and bl = "1.prems"(3)
    and lr = "1.prems"(4) and re = "1.prems"(5)
    and invl = "1.prems"(8) and invr = "1.prems"(9)
  from "1.prems"(6) obtain k where k: "l < int k" "int k < e" "\<not> xs ! k < ref" by blast
  from "1.prems"(7) obtain j where j: "b \<le> int j" "int j < r" "\<not> ref < xs ! j" by blast
  have "k < length xs" using k(2) elen by simp
  with scan_l_sentinel[of l k xs ref] k b0 bl
  obtain l' where l': "scan_l xs ref l = Some l'" "l' \<le> int k" by auto
  from scan_r_sentinel[of r xs j ref] j re elen
  obtain r' where r': "scan_r xs ref r = Some r'" "int j \<le> r'" by auto
  note L = scan_l_Some[OF l'(1)] and R = scan_r_Some[OF r'(1)]
  have left: "xs ! n \<le> ref" if "b \<le> int n" "int n < l'" for n
  proof (cases "int n \<le> l")
    case True
    with invl that show ?thesis by simp
  next
    case False
    with L that have "xs ! n < ref" by simp
    then show ?thesis by simp
  qed
  have right: "ref \<le> xs ! n" if "r' < int n" "int n < e" for n
  proof (cases "r \<le> int n")
    case True
    with invr that show ?thesis by simp
  next
    case False
    with R that have "ref < xs ! n" by simp
    then show ?thesis by simp
  qed
  show ?case
  proof (cases "r' \<le> l'")
    case True
    have res: "partition_loop xs ref l r = Some (r', xs)"
      using l' r' True by (subst partition_loop.simps) simp
    have bnd: "b \<le> r'" "r' < e" using r'(2) j(1) R re by simp_all
    have "xs ! n \<le> ref" if "b \<le> int n" "int n \<le> r'" for n
    proof (cases "int n < l'")
      case True
      with that left show ?thesis by simp
    next
      case False
      with that \<open>r' \<le> l'\<close> have "n = nat r'" by simp
      with R show ?thesis by (simp add: not_less)
    qed
    with res bnd right show ?thesis by simp
  next
    case False
    then have lt: "l' < r'" by simp
    let ?ys = "iter_swap xs l' r'"
    have nth: "?ys ! n = (if int n = r' then xs ! nat l' else if int n = l' then xs ! nat r' else xs ! n)" for n
      using L R by (simp add: iter_swap_nth)
    have p2: "e \<le> int (length ?ys)" using elen by simp
    have p3: "b - 1 \<le> l'" using L bl by simp
    have p5: "r' \<le> e" using R re by simp
    have p6: "\<exists>k. l' < int k \<and> int k < e \<and> \<not> ?ys ! k < ref"
    proof (intro exI conjI)
      show "l' < int (nat r')" using lt R by simp
      show "int (nat r') < e" using R re by simp
      show "\<not> ?ys ! nat r' < ref" using L R by (simp add: nth)
    qed
    have p7: "\<exists>j. b \<le> int j \<and> int j < r' \<and> \<not> ref < ?ys ! j"
    proof (intro exI conjI)
      show "b \<le> int (nat l')" using L bl by simp
      show "int (nat l') < r'" using lt L by simp
      show "\<not> ref < ?ys ! nat l'" using L R lt by (simp add: nth)
    qed
    have p8: "\<forall>n. b \<le> int n \<and> int n \<le> l' \<longrightarrow> ?ys ! n \<le> ref"
    proof (intro allI impI)
      fix n assume n: "b \<le> int n \<and> int n \<le> l'"
      show "?ys ! n \<le> ref"
      proof (cases "int n = l'")
        case True
        with lt R show ?thesis by (simp add: nth not_less)
      next
        case False
        with n lt left[of n] show ?thesis by (simp add: nth)
      qed
    qed
    have p9: "\<forall>n. r' \<le> int n \<and> int n < e \<longrightarrow> ref \<le> ?ys ! n"
    proof (intro allI impI)
      fix n assume n: "r' \<le> int n \<and> int n < e"
      show "ref \<le> ?ys ! n"
      proof (cases "int n = r'")
        case True
        with lt L show ?thesis by (simp add: nth not_less)
      next
        case False
        with n lt right[of n] show ?thesis by (simp add: nth)
      qed
    qed
    from "1.IH"[OF l'(1) r'(1) False b0 p2 p3 lt p5 p6 p7 p8 p9]
    obtain m xs' where ih: "partition_loop ?ys ref l' r' = Some (m, xs')" "b \<le> m" "m < e"
      "\<forall>n. b \<le> int n \<and> int n \<le> m \<longrightarrow> xs' ! n \<le> ref"
      "\<forall>n. m < int n \<and> int n < e \<longrightarrow> ref \<le> xs' ! n" by blast
    have "partition_loop xs ref l r = Some (m, xs')"
      using l' r' False ih(1) by (subst partition_loop.simps) simp
    with ih show ?thesis by simp
  qed
qed

lemma partition_it_valid:
  assumes "b < e" "partition_it xs b e ref = Some p"
  shows "0 \<le> b \<and> e \<le> int (length xs)"
proof -
  from assms have pl: "partition_loop xs ref (b - 1) e = Some p"
    by (simp add: partition_it_def)
  then obtain l' where l': "scan_l xs ref (b - 1) = Some l'"
    by (subst (asm) partition_loop.simps) (auto split: option.splits)
  from pl l' obtain r' where r': "scan_r xs ref e = Some r'"
    by (subst (asm) partition_loop.simps) (auto split: option.splits)
  from l' have "deref xs b \<noteq> None"
    by (subst (asm) scan_l.simps) (auto simp: Let_def split: option.splits)
  moreover from r' have "deref xs (e - 1) \<noteq> None"
    by (subst (asm) scan_r.simps) (auto simp: Let_def split: option.splits)
  ultimately show ?thesis by (auto simp: deref_def split: if_splits)
qed

lemma partition_it_post:
  assumes "0 \<le> b" "b < e" "e \<le> int (length xs)" "b \<le> int k" "int k < e" "xs ! k = ref"
  shows "\<exists>m xs'. partition_it xs b e ref = Some (m, xs') \<and> b \<le> m \<and> m < e \<and>
           (\<forall>n. b \<le> int n \<and> int n \<le> m \<longrightarrow> xs' ! n \<le> ref) \<and>
           (\<forall>n. m < int n \<and> int n < e \<longrightarrow> ref \<le> xs' ! n)"
proof -
  have "\<exists>k. b - 1 < int k \<and> int k < e \<and> \<not> xs ! k < ref"
    using assms by (intro exI[of _ k]) simp
  moreover have "\<exists>j. b \<le> int j \<and> int j < e \<and> \<not> ref < xs ! j"
    using assms by (intro exI[of _ k]) simp
  moreover have "\<forall>n. b \<le> int n \<and> int n \<le> b - 1 \<longrightarrow> xs ! n \<le> ref" by auto
  moreover have "\<forall>n. e \<le> int n \<and> int n < e \<longrightarrow> ref \<le> xs ! n" by auto
  ultimately show ?thesis
    using partition_loop_post[of b e xs "b - 1" e ref] assms(1-3)
    by (simp add: partition_it_def)
qed

lemma partition_it_frame:
  assumes "partition_it xs b e ref = Some (m, xs')"
  shows "length xs' = length xs \<and> mset xs' = mset xs \<and>
         (\<forall>n. int n < b \<or> e \<le> int n \<longrightarrow> xs' ! n = xs ! n)"
proof (cases "b < e")
  case True
  with assms have "partition_loop xs ref (b - 1) e = Some (m, xs')"
    by (simp add: partition_it_def)
  from partition_loop_frame[OF this] show ?thesis by simp
next
  case False
  with assms show ?thesis by (simp add: partition_it_def)
qed

lemma partition_it_midpoint:
  assumes "b < e" "deref xs (b + (e - b) div 2) = Some ref"
    "partition_it xs b e ref = Some (m, xs')"
  shows "b \<le> m \<and> m < e"
proof -
  let ?mid = "b + (e - b) div 2"
  from partition_it_valid[OF assms(1,3)] have v: "0 \<le> b" "e \<le> int (length xs)" by simp_all
  from assms(1) have mid: "b \<le> ?mid" "?mid < e" by simp_all
  from assms(2) have "xs ! nat ?mid = ref" by (simp add: deref_Some_iff)
  with partition_it_post[of b e xs "nat ?mid" ref] v assms(1) mid assms(3)
  show ?thesis by simp
qed

section \<open>The sort engine\<close>

text \<open>\<^verbatim>\<open>quicksort(begin, end)\<close>: the pivot is the value at the midpoint, and the two recursive
  calls are on \<^verbatim>\<open>[begin, m)\<close> and \<^verbatim>\<open>[m + 1, end)\<close>.\<close>

function quicksort :: "'a::linorder list \<Rightarrow> int \<Rightarrow> int \<Rightarrow> 'a list option" where
  "quicksort xs b e =
     (if b < e then
        (let refIt = b + (e - b) div 2 in
         case deref xs refIt of
           None \<Rightarrow> None
         | Some ref \<Rightarrow>
             (case partition_it xs b e ref of
                None \<Rightarrow> None
              | Some (m, xs1) \<Rightarrow>
                  (case quicksort xs1 b m of
                     None \<Rightarrow> None
                   | Some xs2 \<Rightarrow> quicksort xs2 (m + 1) e)))
      else Some xs)"
  by pat_completeness auto
termination
proof (relation "measure (\<lambda>(xs, b, e). nat (e - b))", goal_cases)
  case 1
  show ?case by simp
next
  case (2 xs b e refIt ref p m xs1)
  then have "b \<le> m \<and> m < e" using partition_it_midpoint[of b e xs ref m xs1] by simp
  with 2 show ?case by simp
next
  case (3 xs b e refIt ref p m xs1 xs2)
  then have "b \<le> m \<and> m < e" using partition_it_midpoint[of b e xs ref m xs1] by simp
  with 3 show ?case by simp
qed

text \<open>
  \<^verbatim>\<open>parallelQuicksort(begin, end)\<close> with its template parameter \<^verbatim>\<open>granularity\<close> (256 by
  default).  The two closures call \<^verbatim>\<open>parallelQuicksort(begin, m)\<close> and
  \<^verbatim>\<open>parallelQuicksort(m + 1, end)\<close> and name no granularity: only the iterator type is
  deduced there, so the recursive calls are the instantiation with the default 256,
  whatever the granularity of the calling instantiation is.

  \<^verbatim>\<open>tbb::parallel_invoke\<close> runs the two closures as tasks and returns when both have
  returned.  The model runs one task to its end and then the other; which one goes first
  is decided for every fork by the parameter \<open>sched\<close>, a function of the range of the
  forking call (\<open>True\<close>: the task on \<^verbatim>\<open>[begin, m)\<close> first).  Interleavings of the two tasks
  below that grain are not part of the model.
\<close>

function parallelQuicksort ::
  "nat \<Rightarrow> (int \<Rightarrow> int \<Rightarrow> bool) \<Rightarrow> 'a::linorder list \<Rightarrow> int \<Rightarrow> int \<Rightarrow> 'a list option" where
  "parallelQuicksort granularity sched xs b e =
     (if b < e then
        (if e - b \<le> int granularity then quicksort xs b e
         else
           (let refIt = b + (e - b) div 2 in
            case deref xs refIt of
              None \<Rightarrow> None
            | Some ref \<Rightarrow>
                (case partition_it xs b e ref of
                   None \<Rightarrow> None
                 | Some (m, xs1) \<Rightarrow>
                     if sched b e then
                       (case parallelQuicksort 256 sched xs1 b m of
                          None \<Rightarrow> None
                        | Some xs2 \<Rightarrow> parallelQuicksort 256 sched xs2 (m + 1) e)
                     else
                       (case parallelQuicksort 256 sched xs1 (m + 1) e of
                          None \<Rightarrow> None
                        | Some xs2 \<Rightarrow> parallelQuicksort 256 sched xs2 b m))))
      else Some xs)"
  by pat_completeness auto
termination
proof (relation "measure (\<lambda>(g, s, xs, b, e). nat (e - b))", goal_cases)
  case 1
  show ?case by simp
next
  case (2 g s xs b e refIt ref p m xs1)
  then have "b \<le> m \<and> m < e" using partition_it_midpoint[of b e xs ref m xs1] by simp
  with 2 show ?case by simp
next
  case (3 g s xs b e refIt ref p m xs1 xs2)
  then have "b \<le> m \<and> m < e" using partition_it_midpoint[of b e xs ref m xs1] by simp
  with 3 show ?case by simp
next
  case (4 g s xs b e refIt ref p m xs1)
  then have "b \<le> m \<and> m < e" using partition_it_midpoint[of b e xs ref m xs1] by simp
  with 4 show ?case by simp
next
  case (5 g s xs b e refIt ref p m xs1 xs2)
  then have "b \<le> m \<and> m < e" using partition_it_midpoint[of b e xs ref m xs1] by simp
  with 5 show ?case by simp
qed

text \<open>
  The sequential sort as section 4.2 of the specification words it, for comparison with
  \<open>quicksort\<close>: a range of size 0 or 1 is returned as it is; otherwise the pivot is the
  value at the midpoint, the partitioner gives \<open>m\<close>, and the recursion is on \<^verbatim>\<open>[begin, m]\<close>,
  position \<open>m\<close> included, and on the positions after \<open>m\<close>.  Nothing says that this
  recursion ends, so the result \<open>None\<close> also stands for a run that does not return.
\<close>

partial_function (option) quicksort_spec :: "'a::linorder list \<Rightarrow> int \<Rightarrow> int \<Rightarrow> 'a list option" where
  "quicksort_spec xs b e =
     (if e - b \<le> 1 then Some xs
      else
        (case deref xs (b + (e - b) div 2) of
           None \<Rightarrow> None
         | Some ref \<Rightarrow>
             (case partition_it xs b e ref of
                None \<Rightarrow> None
              | Some (m, xs1) \<Rightarrow>
                  Option.bind (quicksort_spec xs1 b (m + 1))
                    (\<lambda>xs2. quicksort_spec xs2 (m + 1) e))))"

declare quicksort_spec.simps [code]

text \<open>The defining equations are unconditional, so they are unfolded by hand.\<close>

declare scan_l.simps [simp del] scan_r.simps [simp del] partition_loop.simps [simp del]
  quicksort.simps [simp del] parallelQuicksort.simps [simp del]

section \<open>Properties of the sort engine\<close>

lemma quicksort_empty: "\<not> b < e \<Longrightarrow> quicksort xs b e = Some xs"
  by (subst quicksort.simps) simp

lemma quicksort_step:
  "b < e \<Longrightarrow> deref xs (b + (e - b) div 2) = Some ref \<Longrightarrow>
   partition_it xs b e ref = Some (m, xs1) \<Longrightarrow>
   quicksort xs b e =
     (case quicksort xs1 b m of None \<Rightarrow> None | Some xs2 \<Rightarrow> quicksort xs2 (m + 1) e)"
  by (subst quicksort.simps) (simp add: Let_def)

lemma quicksort_Some_cases:
  assumes "quicksort xs b e = Some ys" "b < e"
  obtains ref m xs1 xs2 where "deref xs (b + (e - b) div 2) = Some ref"
    "partition_it xs b e ref = Some (m, xs1)" "quicksort xs1 b m = Some xs2"
    "quicksort xs2 (m + 1) e = Some ys"
  using assms by (subst (asm) quicksort.simps) (auto simp: Let_def split: option.splits)

lemma midpoint_deref:
  assumes "0 \<le> b" "b < e" "e \<le> int (length xs)"
  shows "deref xs (b + (e - b) div 2) = Some (xs ! nat (b + (e - b) div 2))"
    and "b \<le> b + (e - b) div 2" and "b + (e - b) div 2 < e"
  using assms by (simp_all add: deref_def)

lemma quicksort_total:
  "0 \<le> b \<Longrightarrow> e \<le> int (length xs) \<Longrightarrow>
     \<exists>ys. quicksort xs b e = Some ys \<and> length ys = length xs \<and> mset ys = mset xs \<and>
          (\<forall>n. int n < b \<or> e \<le> int n \<longrightarrow> ys ! n = xs ! n)"
proof (induction xs b e rule: quicksort.induct)
  case (1 xs b e)
  show ?case
  proof (cases "b < e")
    case False
    then show ?thesis by (simp add: quicksort_empty)
  next
    case True
    let ?mid = "b + (e - b) div 2"
    let ?ref = "xs ! nat ?mid"
    note M = midpoint_deref[OF "1.prems"(1) True "1.prems"(2)]
    from partition_it_post[of b e xs "nat ?mid" ?ref] "1.prems" True M(2,3)
    obtain m xs1 where p: "partition_it xs b e ?ref = Some (m, xs1)" "b \<le> m" "m < e"
      by auto
    from partition_it_frame[OF p(1)]
    have f1: "length xs1 = length xs" "mset xs1 = mset xs"
      "\<forall>n. int n < b \<or> e \<le> int n \<longrightarrow> xs1 ! n = xs ! n" by simp_all
    have "m \<le> int (length xs1)" using p(3) "1.prems"(2) f1(1) by simp
    from "1.IH"(1)[OF True refl M(1) p(1) refl "1.prems"(1) this]
    obtain xs2 where q1: "quicksort xs1 b m = Some xs2" "length xs2 = length xs1"
      "mset xs2 = mset xs1" "\<forall>n. int n < b \<or> m \<le> int n \<longrightarrow> xs2 ! n = xs1 ! n" by blast
    have "0 \<le> m + 1" "e \<le> int (length xs2)"
      using p(2) "1.prems" f1(1) q1(2) by simp_all
    from "1.IH"(2)[OF True refl M(1) p(1) refl q1(1) this]
    obtain xs3 where q2: "quicksort xs2 (m + 1) e = Some xs3" "length xs3 = length xs2"
      "mset xs3 = mset xs2" "\<forall>n. int n < m + 1 \<or> e \<le> int n \<longrightarrow> xs3 ! n = xs2 ! n" by blast
    have res: "quicksort xs b e = Some xs3"
      using quicksort_step[OF True M(1) p(1)] q1(1) q2(1) by simp
    have "xs3 ! n = xs ! n" if "int n < b \<or> e \<le> int n" for n
    proof -
      from that p(2,3) have "xs3 ! n = xs2 ! n" using q2(4) by auto
      also from that p(2,3) have "xs2 ! n = xs1 ! n" using q1(4) by auto
      also from that have "xs1 ! n = xs ! n" using f1(3) by auto
      finally show ?thesis .
    qed
    with res q2(2,3) q1(2,3) f1(1,2) show ?thesis by simp
  qed
qed

lemma iter_swap_same:
  assumes "xs ! nat l = xs ! nat r"
  shows "iter_swap xs l r = xs"
proof -
  have "xs[nat l := xs ! nat r] = xs"
    by (subst assms[symmetric]) (rule list_update_id)
  moreover have "xs[nat r := xs ! nat l] = xs"
    by (subst assms) (rule list_update_id)
  ultimately show ?thesis by (simp only: iter_swap_def)
qed

lemma partition_loop_sorted:
  "sorted xs \<Longrightarrow> partition_loop xs ref l r = Some (m, xs') \<Longrightarrow> xs' = xs"
proof (induction xs ref l r rule: partition_loop.induct)
  case (1 xs ref l r)
  from "1.prems"(2) obtain l' where l': "scan_l xs ref l = Some l'"
    by (subst (asm) partition_loop.simps) (auto split: option.splits)
  from "1.prems"(2) l' obtain r' where r': "scan_r xs ref r = Some r'"
    by (subst (asm) partition_loop.simps) (auto split: option.splits)
  note L = scan_l_Some[OF l'] and R = scan_r_Some[OF r']
  show ?case
  proof (cases "r' \<le> l'")
    case True
    with "1.prems"(2) l' r' show ?thesis
      by (subst (asm) partition_loop.simps) simp
  next
    case False
    have "xs ! nat l' \<le> xs ! nat r'"
      using False L R by (intro sorted_nth_mono[OF "1.prems"(1)]) auto
    moreover have "ref \<le> xs ! nat l'" "xs ! nat r' \<le> ref"
      using L R by (simp_all add: not_less)
    ultimately have "xs ! nat l' = xs ! nat r'" by simp
    then have same: "iter_swap xs l' r' = xs" by (rule iter_swap_same)
    from False "1.prems"(2) l' r' have "partition_loop (iter_swap xs l' r') ref l' r' = Some (m, xs')"
      by (subst (asm) partition_loop.simps) simp
    from "1.IH"[OF l' r' False _ this] "1.prems"(1) same show ?thesis by simp
  qed
qed

lemma partition_it_sorted:
  "sorted xs \<Longrightarrow> partition_it xs b e ref = Some (m, xs') \<Longrightarrow> xs' = xs"
  by (auto simp: partition_it_def split: if_splits dest: partition_loop_sorted)

lemma quicksort_sorted:
  "sorted xs \<Longrightarrow> quicksort xs b e = Some ys \<Longrightarrow> ys = xs"
proof (induction xs b e arbitrary: ys rule: quicksort.induct)
  case (1 xs b e)
  show ?case
  proof (cases "b < e")
    case False
    with "1.prems" show ?thesis by (simp add: quicksort_empty)
  next
    case True
    from "1.prems"(2) True obtain ref m xs1 xs2 where
      s: "deref xs (b + (e - b) div 2) = Some ref"
      "partition_it xs b e ref = Some (m, xs1)" "quicksort xs1 b m = Some xs2"
      "quicksort xs2 (m + 1) e = Some ys"
      by (rule quicksort_Some_cases)
    from partition_it_sorted[OF "1.prems"(1) s(2)] have x1: "xs1 = xs" .
    from "1.IH"(1)[OF True refl s(1) s(2) refl _ s(3)] "1.prems"(1) x1 have x2: "xs2 = xs" by simp
    from "1.IH"(2)[OF True refl s(1) s(2) refl s(3) _ s(4)] "1.prems"(1) x2 show ?thesis by simp
  qed
qed

subsection \<open>A call on a range of a longer vector\<close>

text \<open>
  If a call succeeds on a vector \<open>mid\<close> alone, where every position outside \<open>mid\<close> is
  outside the vector, then the same call on \<open>mid\<close> as a part of \<open>pre @ mid @ suf\<close>, with the
  iterators moved by the length of \<open>pre\<close>, succeeds with the same result on \<open>mid\<close> and
  leaves \<open>pre\<close> and \<open>suf\<close> as they are, whatever they hold.
\<close>

lemma deref_embed:
  "deref mid i = Some v \<Longrightarrow> deref (pre @ mid @ suf) (int (length pre) + i) = Some v"
  by (auto simp: deref_def nth_append nat_add_distrib split: if_splits)

lemma scan_l_embed:
  "scan_l mid ref l = Some l' \<Longrightarrow>
     scan_l (pre @ mid @ suf) ref (int (length pre) + l) = Some (int (length pre) + l')"
proof (induction mid ref l rule: scan_l.induct)
  case (1 mid ref l)
  from "1.prems" obtain v where v: "deref mid (l + 1) = Some v"
    by (subst (asm) scan_l.simps) (auto simp: Let_def split: option.splits)
  from deref_embed[OF v, of pre suf]
  have d: "deref (pre @ mid @ suf) (int (length pre) + l + 1) = Some v"
    by (simp add: add.assoc)
  show ?case
  proof (cases "v < ref")
    case True
    with v "1.prems" have "scan_l mid ref (l + 1) = Some l'"
      by (subst (asm) scan_l.simps) (simp add: Let_def)
    from "1.IH"[OF refl v True this] d True show ?thesis
      by (subst scan_l.simps) (simp add: Let_def add.assoc)
  next
    case False
    with v "1.prems" have "l' = l + 1"
      by (subst (asm) scan_l.simps) (simp add: Let_def)
    with d False show ?thesis
      by (subst scan_l.simps) (simp add: Let_def)
  qed
qed

lemma scan_r_embed:
  "scan_r mid ref r = Some r' \<Longrightarrow>
     scan_r (pre @ mid @ suf) ref (int (length pre) + r) = Some (int (length pre) + r')"
proof (induction mid ref r rule: scan_r.induct)
  case (1 mid ref r)
  from "1.prems" obtain v where v: "deref mid (r - 1) = Some v"
    by (subst (asm) scan_r.simps) (auto simp: Let_def split: option.splits)
  from deref_embed[OF v, of pre suf]
  have d: "deref (pre @ mid @ suf) (int (length pre) + r - 1) = Some v"
    by (simp add: algebra_simps)
  show ?case
  proof (cases "ref < v")
    case True
    with v "1.prems" have "scan_r mid ref (r - 1) = Some r'"
      by (subst (asm) scan_r.simps) (simp add: Let_def)
    from "1.IH"[OF refl v True this] d True show ?thesis
      by (subst scan_r.simps) (simp add: Let_def algebra_simps)
  next
    case False
    with v "1.prems" have "r' = r - 1"
      by (subst (asm) scan_r.simps) (simp add: Let_def)
    with d False show ?thesis
      by (subst scan_r.simps) (simp add: Let_def)
  qed
qed

lemma iter_swap_embed:
  assumes "0 \<le> l" "l < int (length mid)" "0 \<le> r" "r < int (length mid)"
  shows "iter_swap (pre @ mid @ suf) (int (length pre) + l) (int (length pre) + r) =
           pre @ iter_swap mid l r @ suf"
proof -
  have n: "nat l < length mid" "nat r < length mid" using assms by simp_all
  have i: "nat (int (length pre) + l) = length pre + nat l"
    "nat (int (length pre) + r) = length pre + nat r"
    using assms by (simp_all add: nat_add_distrib)
  show ?thesis
    unfolding iter_swap_def i using n
    by (simp add: list_update_append nth_append)
qed

lemma partition_loop_embed:
  "partition_loop mid ref l r = Some (m, mid') \<Longrightarrow>
     partition_loop (pre @ mid @ suf) ref (int (length pre) + l) (int (length pre) + r) =
       Some (int (length pre) + m, pre @ mid' @ suf)"
proof (induction mid ref l r rule: partition_loop.induct)
  case (1 mid ref l r)
  from "1.prems" obtain l' where l': "scan_l mid ref l = Some l'"
    by (subst (asm) partition_loop.simps) (auto split: option.splits)
  from "1.prems" l' obtain r' where r': "scan_r mid ref r = Some r'"
    by (subst (asm) partition_loop.simps) (auto split: option.splits)
  note L = scan_l_Some[OF l'] and R = scan_r_Some[OF r']
  note EL = scan_l_embed[OF l', of pre suf] and ER = scan_r_embed[OF r', of pre suf]
  show ?case
  proof (cases "r' \<le> l'")
    case True
    with "1.prems" l' r' have "m = r'" "mid' = mid"
      by (subst (asm) partition_loop.simps, simp)+
    with EL ER True show ?thesis
      by (subst partition_loop.simps) simp
  next
    case False
    with "1.prems" l' r' have "partition_loop (iter_swap mid l' r') ref l' r' = Some (m, mid')"
      by (subst (asm) partition_loop.simps) simp
    from "1.IH"[OF l' r' False this] iter_swap_embed[of l' mid r' pre suf] L R
    have "partition_loop (iter_swap (pre @ mid @ suf) (int (length pre) + l') (int (length pre) + r'))
            ref (int (length pre) + l') (int (length pre) + r') =
          Some (int (length pre) + m, pre @ mid' @ suf)" by simp
    with EL ER False show ?thesis
      by (subst partition_loop.simps) simp
  qed
qed

lemma partition_it_embed:
  assumes "partition_it mid b e ref = Some (m, mid')"
  shows "partition_it (pre @ mid @ suf) (int (length pre) + b) (int (length pre) + e) ref =
           Some (int (length pre) + m, pre @ mid' @ suf)"
proof (cases "b < e")
  case True
  with assms have "partition_loop mid ref (b - 1) e = Some (m, mid')"
    by (simp add: partition_it_def)
  from partition_loop_embed[OF this, of pre suf] True show ?thesis
    by (simp add: partition_it_def algebra_simps)
next
  case False
  with assms show ?thesis by (simp add: partition_it_def)
qed

lemma quicksort_embed:
  "quicksort mid b e = Some mid' \<Longrightarrow>
     quicksort (pre @ mid @ suf) (int (length pre) + b) (int (length pre) + e) =
       Some (pre @ mid' @ suf)"
proof (induction mid b e arbitrary: mid' rule: quicksort.induct)
  case (1 mid b e)
  let ?p = "int (length pre)"
  show ?case
  proof (cases "b < e")
    case False
    with "1.prems" show ?thesis by (simp add: quicksort_empty)
  next
    case True
    from "1.prems" True obtain ref m xs1 xs2 where
      s: "deref mid (b + (e - b) div 2) = Some ref"
      "partition_it mid b e ref = Some (m, xs1)" "quicksort xs1 b m = Some xs2"
      "quicksort xs2 (m + 1) e = Some mid'"
      by (rule quicksort_Some_cases)
    have lt: "?p + b < ?p + e" using True by simp
    have "?p + b + (?p + e - (?p + b)) div 2 = ?p + (b + (e - b) div 2)" by simp
    with deref_embed[OF s(1), of pre suf]
    have d: "deref (pre @ mid @ suf) (?p + b + (?p + e - (?p + b)) div 2) = Some ref"
      by (simp add: add.assoc)
    note P = partition_it_embed[OF s(2), of pre suf]
    from "1.IH"(1)[OF True refl s(1) s(2) refl s(3)]
    have q1: "quicksort (pre @ xs1 @ suf) (?p + b) (?p + m) = Some (pre @ xs2 @ suf)" .
    from "1.IH"(2)[OF True refl s(1) s(2) refl s(3) s(4)]
    have q2: "quicksort (pre @ xs2 @ suf) (?p + m + 1) (?p + e) = Some (pre @ mid' @ suf)"
      by (simp add: add.assoc)
    from quicksort_step[OF lt d P] q1 q2 show ?thesis by simp
  qed
qed

subsection \<open>Ranges as slices; the two recursive calls commute\<close>

lemma length_slice: "0 \<le> b \<Longrightarrow> b \<le> e \<Longrightarrow> e \<le> int (length xs) \<Longrightarrow> int (length (slice xs b e)) = e - b"
  by (simp add: slice_def)

lemma drop_slice:
  assumes "0 \<le> b" "b \<le> e" "e \<le> int (length xs)"
  shows "drop (nat b) xs = slice xs b e @ drop (nat e) xs"
proof -
  have "nat (e - b) + nat b = nat e" using assms by simp
  then have "drop (nat e) xs = drop (nat (e - b)) (drop (nat b) xs)"
    by simp
  then show ?thesis
    unfolding slice_def by (simp only: append_take_drop_id)
qed

lemma slice_split:
  assumes "0 \<le> b" "b \<le> e" "e \<le> int (length xs)"
  shows "xs = take (nat b) xs @ slice xs b e @ drop (nat e) xs"
  using drop_slice[OF assms] append_take_drop_id[of "nat b" xs] by simp

lemma range_split:
  assumes "0 \<le> b" "b \<le> m" "m < e" "e \<le> int (length xs)"
  shows "\<exists>P A x B S. xs = P @ A @ x # B @ S \<and> int (length P) = b \<and>
           int (length A) = m - b \<and> int (length B) = e - (m + 1)"
proof (intro exI conjI)
  have m: "nat m < length xs" using assms by simp
  have "drop (nat m) xs = xs ! nat m # drop (nat (m + 1)) xs"
    using Cons_nth_drop_Suc[OF m] assms by (simp add: nat_add_distrib)
  also have "drop (nat (m + 1)) xs = slice xs (m + 1) e @ drop (nat e) xs"
    using assms by (intro drop_slice) simp_all
  finally have "drop (nat m) xs = xs ! nat m # slice xs (m + 1) e @ drop (nat e) xs" .
  with slice_split[of b m xs] assms
  show "xs = take (nat b) xs @ slice xs b m @ xs ! nat m # slice xs (m + 1) e @ drop (nat e) xs"
    by simp
  show "int (length (take (nat b) xs)) = b" using assms by simp
  show "int (length (slice xs b m)) = m - b" using assms by (simp add: length_slice)
  show "int (length (slice xs (m + 1) e)) = e - (m + 1)" using assms by (simp add: length_slice)
qed

lemma quicksort_whole:
  "\<exists>ys. quicksort xs 0 (int (length xs)) = Some ys \<and> length ys = length xs \<and> mset ys = mset xs"
  using quicksort_total[of 0 "int (length xs)" xs] by auto

lemma quicksort_slice:
  assumes "0 \<le> b" "b \<le> e" "e \<le> int (length xs)"
  shows "\<exists>s. quicksort (slice xs b e) 0 (e - b) = Some s \<and>
             quicksort xs b e = Some (take (nat b) xs @ s @ drop (nat e) xs)"
proof -
  let ?mid = "slice xs b e"
  have len: "int (length ?mid) = e - b" using assms by (rule length_slice)
  from quicksort_whole[of ?mid] len obtain s where s: "quicksort ?mid 0 (e - b) = Some s"
    by auto
  from quicksort_embed[OF s, of "take (nat b) xs" "drop (nat e) xs"] assms
  have "quicksort (take (nat b) xs @ ?mid @ drop (nat e) xs) b e =
          Some (take (nat b) xs @ s @ drop (nat e) xs)" by simp
  with slice_split[OF assms] s show ?thesis by simp
qed

lemma quicksort_commute:
  assumes "0 \<le> b" "b \<le> m" "m < e" "e \<le> int (length xs)"
  shows "(case quicksort xs (m + 1) e of None \<Rightarrow> None | Some z \<Rightarrow> quicksort z b m) =
         (case quicksort xs b m of None \<Rightarrow> None | Some z \<Rightarrow> quicksort z (m + 1) e)"
proof -
  from range_split[OF assms] obtain P A x B S where
    xs: "xs = P @ A @ x # B @ S" and lp: "int (length P) = b"
    and la: "int (length A) = m - b" and lb: "int (length B) = e - (m + 1)" by blast
  from quicksort_whole[of A] obtain A' where
    A': "quicksort A 0 (int (length A)) = Some A'" "length A' = length A" by auto
  from quicksort_whole[of B] obtain B' where
    B': "quicksort B 0 (int (length B)) = Some B'" "length B' = length B" by auto
  have l1: "quicksort (P @ A @ x # B @ S) b m = Some (P @ A' @ x # B @ S)"
    using quicksort_embed[OF A'(1), of P "x # B @ S"] lp la by simp
  have l2: "quicksort (P @ A' @ x # B @ S) (m + 1) e = Some (P @ A' @ x # B' @ S)"
    using quicksort_embed[OF B'(1), of "P @ A' @ [x]" S] lp la lb A'(2)
    by (simp add: algebra_simps)
  have r1: "quicksort (P @ A @ x # B @ S) (m + 1) e = Some (P @ A @ x # B' @ S)"
    using quicksort_embed[OF B'(1), of "P @ A @ [x]" S] lp la lb
    by (simp add: algebra_simps)
  have r2: "quicksort (P @ A @ x # B' @ S) b m = Some (P @ A' @ x # B' @ S)"
    using quicksort_embed[OF A'(1), of P "x # B' @ S"] lp la by simp
  show ?thesis unfolding xs by (simp add: l1 l2 r1 r2)
qed

subsection \<open>The parallel variant computes what the sequential one does\<close>

lemma parallelQuicksort_empty: "\<not> b < e \<Longrightarrow> parallelQuicksort g sched xs b e = Some xs"
  by (subst parallelQuicksort.simps) simp

lemma parallelQuicksort_small:
  "e - b \<le> int g \<Longrightarrow> parallelQuicksort g sched xs b e = quicksort xs b e"
  by (subst parallelQuicksort.simps) (simp add: quicksort_empty)

lemma parallelQuicksort_step:
  "b < e \<Longrightarrow> \<not> e - b \<le> int g \<Longrightarrow> deref xs (b + (e - b) div 2) = Some ref \<Longrightarrow>
   partition_it xs b e ref = Some (m, xs1) \<Longrightarrow>
   parallelQuicksort g sched xs b e =
     (if sched b e then
        (case parallelQuicksort 256 sched xs1 b m of
           None \<Rightarrow> None
         | Some xs2 \<Rightarrow> parallelQuicksort 256 sched xs2 (m + 1) e)
      else
        (case parallelQuicksort 256 sched xs1 (m + 1) e of
           None \<Rightarrow> None
         | Some xs2 \<Rightarrow> parallelQuicksort 256 sched xs2 b m))"
  by (subst parallelQuicksort.simps) (simp add: Let_def)

lemma parallelQuicksort_eq:
  "0 \<le> b \<Longrightarrow> e \<le> int (length xs) \<Longrightarrow>
     parallelQuicksort g sched xs b e = quicksort xs b e"
proof (induction g sched xs b e rule: parallelQuicksort.induct)
  case (1 g sched xs b e)
  show ?case
  proof (cases "e - b \<le> int g")
    case True
    then show ?thesis by (rule parallelQuicksort_small)
  next
    case big: False
    then have lt: "b < e" by simp
    let ?mid = "b + (e - b) div 2"
    let ?ref = "xs ! nat ?mid"
    note M = midpoint_deref[OF "1.prems"(1) lt "1.prems"(2)]
    from partition_it_post[of b e xs "nat ?mid" ?ref] "1.prems" lt M(2,3)
    obtain m xs1 where p: "partition_it xs b e ?ref = Some (m, xs1)" "b \<le> m" "m < e"
      by auto
    from partition_it_frame[OF p(1)] have len1: "length xs1 = length xs" by simp
    have v1: "m \<le> int (length xs1)" "e \<le> int (length xs1)" "0 \<le> m + 1"
      using p(2,3) "1.prems" len1 by simp_all
    note step = parallelQuicksort_step[OF lt big M(1) p(1), of sched]
    note qstep = quicksort_step[OF lt M(1) p(1)]
    show ?thesis
    proof (cases "sched b e")
      case True
      from "1.IH"(1)[OF lt big refl M(1) p(1) refl True "1.prems"(1) v1(1)]
      have e1: "parallelQuicksort 256 sched xs1 b m = quicksort xs1 b m" .
      from quicksort_total[OF "1.prems"(1) v1(1)] obtain xs2 where
        q1: "quicksort xs1 b m = Some xs2" "length xs2 = length xs1" by blast
      from "1.IH"(2)[OF lt big refl M(1) p(1) refl True _ v1(3)] e1 q1 v1(2)
      have e2: "parallelQuicksort 256 sched xs2 (m + 1) e = quicksort xs2 (m + 1) e" by simp
      from step qstep True e1 q1(1) e2 show ?thesis by simp
    next
      case False
      from "1.IH"(3)[OF lt big refl M(1) p(1) refl False v1(3) v1(2)]
      have e1: "parallelQuicksort 256 sched xs1 (m + 1) e = quicksort xs1 (m + 1) e" .
      from quicksort_total[OF v1(3) v1(2)] obtain xs2 where
        q1: "quicksort xs1 (m + 1) e = Some xs2" "length xs2 = length xs1" by blast
      from "1.IH"(4)[OF lt big refl M(1) p(1) refl False _ "1.prems"(1)] e1 q1 v1(1)
      have e2: "parallelQuicksort 256 sched xs2 b m = quicksort xs2 b m" by simp
      from step False e1 q1(1) e2
      have "parallelQuicksort g sched xs b e =
              (case quicksort xs1 (m + 1) e of None \<Rightarrow> None | Some z \<Rightarrow> quicksort z b m)"
        by simp
      also have "\<dots> = (case quicksort xs1 b m of None \<Rightarrow> None | Some z \<Rightarrow> quicksort z (m + 1) e)"
        using "1.prems"(1) p(2,3) v1(2) by (rule quicksort_commute)
      also have "\<dots> = quicksort xs b e" using qstep by simp
      finally show ?thesis .
    qed
  qed
qed

section \<open>Evaluations on concrete vectors\<close>

lemma quicksort_351: "quicksort [3, 5, 1 :: int] 0 3 = Some [3, 1, 5]"
  by code_simp

lemma quicksort_spec_351: "quicksort_spec [3, 5, 1 :: int] 0 3 = Some [1, 3, 5]"
  by code_simp

lemma quicksort_example: "quicksort [5, 3, 8, 1, 9, 2 :: int] 0 6 = Some [1, 2, 3, 5, 8, 9]"
  by code_simp

lemma partition_example:
  "partition_it [5, 3, 8, 1, 9, 2 :: int] 0 6 1 = Some (0, [1, 3, 8, 5, 9, 2])"
  by code_simp

lemma partition_all_equal: "partition_it [4, 4, 4, 4 :: int] 0 4 4 = Some (1, [4, 4, 4, 4])"
  by code_simp

text \<open>
  With the midpoint of the code, the procedure of the specification does not return on the
  vector 1, 2: the partitioner returns \<open>m = 1\<close>, the last position, and the left range
  \<^verbatim>\<open>[begin, m]\<close> is the whole range again.  The code returns there.
\<close>

lemma partition_12: "partition_it [1, 2 :: int] 0 2 2 = Some (1, [1, 2])"
  by code_simp

lemma quicksort_spec_12_aux:
  assumes "quicksort_spec xs b e = Some ys"
  shows "\<not> (xs = [1, 2 :: int] \<and> b = 0 \<and> e = 2)"
proof (rule quicksort_spec.raw_induct[where P = "\<lambda>xs b e ys. \<not> (xs = [1, 2 :: int] \<and> b = 0 \<and> e = 2)",
      OF _ assms])
  fix f :: "int list \<Rightarrow> int \<Rightarrow> int \<Rightarrow> int list option" and xs b e ys
  assume IH: "\<And>xs b e y. f xs b e = Some y \<Longrightarrow> \<not> (xs = [1, 2 :: int] \<and> b = 0 \<and> e = 2)"
    and eq: "(if e - b \<le> 1 then Some xs
      else (case deref xs (b + (e - b) div 2) of
              None \<Rightarrow> None
            | Some ref \<Rightarrow>
                (case partition_it xs b e ref of
                   None \<Rightarrow> None
                 | Some (m, xs1) \<Rightarrow>
                     Option.bind (f xs1 b (m + 1)) (\<lambda>xs2. f xs2 (m + 1) e)))) = Some ys"
  show "\<not> (xs = [1, 2 :: int] \<and> b = 0 \<and> e = 2)"
  proof
    assume a: "xs = [1, 2] \<and> b = 0 \<and> e = 2"
    with eq have eq': "Option.bind (f [1, 2] 0 2) (\<lambda>xs2. f xs2 2 2) = Some ys"
      by (simp add: deref_def partition_12)
    have "f [1, 2] 0 2 \<noteq> None"
    proof
      assume "f [1, 2] 0 2 = None"
      with eq' show False by simp
    qed
    then obtain zs where "f [1, 2] 0 2 = Some zs" by blast
    from IH[OF this] show False by simp
  qed
qed

lemma quicksort_spec_12: "quicksort_spec [1, 2 :: int] 0 2 = None"
  using quicksort_spec_12_aux[of "[1, 2]" 0 2] by (cases "quicksort_spec [1, 2 :: int] 0 2") auto

lemma quicksort_12: "quicksort [1, 2 :: int] 0 2 = Some [1, 2]"
  by code_simp

section \<open>Further facts about the partitioner\<close>

lemma case_option_bind:
  "(case x of None \<Rightarrow> None | Some y \<Rightarrow> f y) = Option.bind x f"
  by (cases x) simp_all

lemma partition_it_whole:
  assumes "k < length mid" "mid ! k = ref"
  shows "\<exists>m s. partition_it mid 0 (int (length mid)) ref = Some (m, s) \<and>
           0 \<le> m \<and> m < int (length mid) \<and> length s = length mid"
proof -
  have "(0::int) \<le> 0" "0 < int (length mid)" "int (length mid) \<le> int (length mid)"
    "0 \<le> int k" "int k < int (length mid)" using assms(1) by auto
  from partition_it_post[OF this assms(2)]
  obtain m s where p: "partition_it mid 0 (int (length mid)) ref = Some (m, s)"
    "0 \<le> m" "m < int (length mid)" by blast
  from partition_it_frame[OF p(1)] p show ?thesis by simp
qed

section \<open>The claims of the specification\<close>

text \<open>
  Claim C1: the output of \<open>quicksort\<close> and of \<open>parallelQuicksort\<close> is non-descending.
  The code does not do this.  On the vector 3, 5, 1 the pivot is 5; the partitioner swaps
  5 and 1 and returns \<open>m = 1\<close>, the position that now holds 1.  The recursive calls are on
  \<^verbatim>\<open>[begin, m)\<close> and \<^verbatim>\<open>[m + 1, end)\<close>, so position \<open>m\<close> is in neither, and the value 1 stays
  behind the 3.  The theorem is the run of the code on that vector.
\<close>

theorem quicksort_output_not_sorted:
  "quicksort [3, 5, 1 :: int] 0 3 = Some [3, 1, 5] \<and>
   parallelQuicksort 256 sched [3, 5, 1 :: int] 0 3 = Some [3, 1, 5] \<and>
   \<not> sorted [3, 1, 5 :: int]"
  by (simp add: quicksort_351 parallelQuicksort_small)

text \<open>
  Claim C2: on every range of a vector, \<open>quicksort\<close> and \<open>parallelQuicksort\<close> return, and the
  vector they leave holds the same elements as before, each as many times as before.
\<close>

theorem sort_permutes:
  assumes "0 \<le> b" "e \<le> int (length xs)"
  shows "\<exists>ys. quicksort xs b e = Some ys \<and> parallelQuicksort g sched xs b e = Some ys \<and>
              mset ys = mset xs"
  using quicksort_total[OF assms] parallelQuicksort_eq[OF assms, of g sched] by auto

theorem sort_permutes_witness:
  "(0::int) \<le> 0 \<and> (6::int) \<le> int (length [5, 3, 8, 1, 9, 2 :: int]) \<and>
   (\<exists>ys. quicksort [5, 3, 8, 1, 9, 2 :: int] 0 6 = Some ys \<and>
         parallelQuicksort 2 (\<lambda>_ _. False) [5, 3, 8, 1, 9, 2] 0 6 = Some ys \<and>
         mset ys = mset [5, 3, 8, 1, 9, 2])"
  using sort_permutes[of 0 6 "[5, 3, 8, 1, 9, 2 :: int]" 2 "\<lambda>_ _. False"] by simp

text \<open>
  Claim C3: for every granularity of at least 1 (the template argument of the call; the
  forked tasks go on with the default 256, as in the code) and every order in which the
  forked tasks run, \<open>parallelQuicksort\<close> leaves exactly the vector that \<open>quicksort\<close> leaves;
  and on a range no longer than the granularity it is the call of \<open>quicksort\<close> itself, on
  any vector and any iterators.
\<close>

theorem parallelQuicksort_equivalence:
  assumes "1 \<le> g" "0 \<le> b" "e \<le> int (length xs)"
  shows "(\<exists>ys. quicksort xs b e = Some ys \<and> parallelQuicksort g sched xs b e = Some ys) \<and>
         (\<forall>zs b' e'. e' - b' \<le> int g \<longrightarrow>
            parallelQuicksort g sched zs b' e' = quicksort zs b' e')"
proof -
  from quicksort_total[OF assms(2,3)] obtain ys where "quicksort xs b e = Some ys" by blast
  with parallelQuicksort_eq[OF assms(2,3), of g sched]
  have "\<exists>ys. quicksort xs b e = Some ys \<and> parallelQuicksort g sched xs b e = Some ys" by simp
  then show ?thesis by (simp add: parallelQuicksort_small)
qed

theorem parallelQuicksort_equivalence_witness:
  "(1::nat) \<le> 2 \<and> (0::int) \<le> 0 \<and> (6::int) \<le> int (length [5, 3, 8, 1, 9, 2 :: int]) \<and>
   (\<exists>ys. quicksort [5, 3, 8, 1, 9, 2 :: int] 0 6 = Some ys \<and>
         parallelQuicksort 2 (\<lambda>_ _. False) [5, 3, 8, 1, 9, 2] 0 6 = Some ys)"
  using parallelQuicksort_equivalence[of 2 0 6 "[5, 3, 8, 1, 9, 2 :: int]" "\<lambda>_ _. False"]
  by auto

text \<open>
  Claim C4: on a non-empty range \<^verbatim>\<open>[b, e)\<close> of a vector and a pivot that is the value at some
  position \<open>k\<close> of the range, the partitioner returns a position \<open>m\<close> with \<open>b \<le> m < e\<close>; in
  the vector it leaves, every element at \<open>b, \<dots>, m\<close> is at most the pivot and every element
  after \<open>m\<close> and before \<open>e\<close> is at least the pivot.  That vector holds the elements of
  the given one.
\<close>

theorem partition_postcondition:
  assumes "0 \<le> b" "b < e" "e \<le> int (length xs)" "b \<le> int k" "int k < e" "xs ! k = ref"
  shows "\<exists>m xs'. partition_it xs b e ref = Some (m, xs') \<and> b \<le> m \<and> m < e \<and>
           (\<forall>n. b \<le> int n \<and> int n \<le> m \<longrightarrow> xs' ! n \<le> ref) \<and>
           (\<forall>n. m < int n \<and> int n < e \<longrightarrow> ref \<le> xs' ! n) \<and>
           length xs' = length xs \<and> mset xs' = mset xs"
proof -
  from partition_it_post[OF assms] obtain m xs' where
    p: "partition_it xs b e ref = Some (m, xs')" "b \<le> m" "m < e"
    "\<forall>n. b \<le> int n \<and> int n \<le> m \<longrightarrow> xs' ! n \<le> ref"
    "\<forall>n. m < int n \<and> int n < e \<longrightarrow> ref \<le> xs' ! n" by blast
  from partition_it_frame[OF p(1)] have "length xs' = length xs" "mset xs' = mset xs"
    by simp_all
  with p show ?thesis by blast
qed

theorem partition_postcondition_witness:
  "(0::int) \<le> 0 \<and> (0::int) < 6 \<and> (6::int) \<le> int (length [5, 3, 8, 1, 9, 2 :: int]) \<and>
   (0::int) \<le> int 3 \<and> int 3 < (6::int) \<and> [5, 3, 8, 1, 9, 2 :: int] ! 3 = 1 \<and>
   partition_it [5, 3, 8, 1, 9, 2 :: int] 0 6 1 = Some (0, [1, 3, 8, 5, 9, 2]) \<and>
   (\<exists>m xs'. partition_it [5, 3, 8, 1, 9, 2 :: int] 0 6 1 = Some (m, xs') \<and> 0 \<le> m \<and> m < 6 \<and>
      (\<forall>n. 0 \<le> int n \<and> int n \<le> m \<longrightarrow> xs' ! n \<le> 1) \<and>
      (\<forall>n. m < int n \<and> int n < 6 \<longrightarrow> 1 \<le> xs' ! n))"
  using partition_postcondition[of 0 6 "[5, 3, 8, 1, 9, 2 :: int]" 3 1]
  by (simp add: partition_example)

text \<open>
  Claim C5: on a non-empty range that holds the pivot value, the scan of the partitioner
  ends and no cursor is dereferenced outside the range.  Here \<open>mid\<close> is the range.  Run on
  \<open>mid\<close> alone, where a dereference outside the range is a dereference outside the vector
  and gives \<open>None\<close>, the partitioner returns a position of the range; the first scan of the
  left cursor and the first scan of the right cursor both stop inside the range, the left
  one not after the right one.  Run on the range as a part of any longer vector
  \<open>pre @ mid @ suf\<close>, the partitioner returns the same position and the same range,
  whatever \<open>pre\<close> and \<open>suf\<close> hold.  A range of equal elements is one case of this.
\<close>

theorem partition_scan_in_range:
  assumes "ref \<in> set mid"
  shows "\<exists>m s. partition_it mid 0 (int (length mid)) ref = Some (m, s) \<and>
           0 \<le> m \<and> m < int (length mid) \<and>
           (\<exists>l' r'. scan_l mid ref (- 1) = Some l' \<and> scan_r mid ref (int (length mid)) = Some r' \<and>
              0 \<le> l' \<and> l' \<le> r' \<and> r' < int (length mid)) \<and>
           (\<forall>pre suf.
              partition_it (pre @ mid @ suf) (int (length pre))
                (int (length pre) + int (length mid)) ref =
              Some (int (length pre) + m, pre @ s @ suf))"
proof -
  from assms obtain k where k: "k < length mid" "mid ! k = ref"
    by (auto simp: in_set_conv_nth)
  from partition_it_whole[OF k]
  obtain m s where p: "partition_it mid 0 (int (length mid)) ref = Some (m, s)"
    "0 \<le> m" "m < int (length mid)" by blast
  from scan_l_sentinel[of "- 1" k mid ref] k
  obtain l' where l': "scan_l mid ref (- 1) = Some l'" "l' \<le> int k" by auto
  from scan_r_sentinel[of "int (length mid)" mid k ref] k
  obtain r' where r': "scan_r mid ref (int (length mid)) = Some r'" "int k \<le> r'" by auto
  from scan_l_Some[OF l'(1)] scan_r_Some[OF r'(1)] l'(2) r'(2)
  have c: "0 \<le> l'" "l' \<le> r'" "r' < int (length mid)" by simp_all
  have "partition_it (pre @ mid @ suf) (int (length pre))
          (int (length pre) + int (length mid)) ref =
        Some (int (length pre) + m, pre @ s @ suf)" for pre suf
    using partition_it_embed[OF p(1), of pre suf] by simp
  with p l'(1) r'(1) c show ?thesis by blast
qed

theorem partition_scan_in_range_witness:
  "(4::int) \<in> set [4, 4, 4, 4] \<and>
   partition_it [4, 4, 4, 4 :: int] 0 4 4 = Some (1, [4, 4, 4, 4]) \<and>
   partition_it ([9, 9] @ [4, 4, 4, 4] @ [0 :: int]) 2 6 4 = Some (3, [9, 9] @ [4, 4, 4, 4] @ [0])"
proof -
  have h: "(4::int) \<in> set [4, 4, 4, 4]" by simp
  from partition_scan_in_range[OF h] obtain m s where
    p: "partition_it [4, 4, 4, 4 :: int] 0 (int (length [4, 4, 4, 4 :: int])) 4 = Some (m, s)"
    and q: "\<forall>pre suf. partition_it (pre @ [4, 4, 4, 4] @ suf) (int (length pre))
              (int (length pre) + int (length [4, 4, 4, 4 :: int])) 4 =
            Some (int (length pre) + m, pre @ s @ suf)" by blast
  from p have ms: "m = 1" "s = [4, 4, 4, 4]" by (simp_all add: partition_all_equal)
  from q have "partition_it ([9, 9] @ [4, 4, 4, 4] @ [0]) (int (length [9, 9 :: int]))
              (int (length [9, 9 :: int]) + int (length [4, 4, 4, 4 :: int])) 4 =
            Some (int (length [9, 9 :: int]) + m, [9, 9] @ s @ [0])" by blast
  with h ms show ?thesis by (simp add: partition_all_equal)
qed

text \<open>
  Claim C6: \<open>quicksort\<close> computes what the procedure of the specification computes, the one
  that recurses on \<^verbatim>\<open>[begin, m]\<close> with position \<open>m\<close> and on the positions after \<open>m\<close>.  The code
  recurses on \<^verbatim>\<open>[begin, m)\<close> instead, and the results differ: on the vector 3, 5, 1 the
  procedure of the specification gives 1, 3, 5 and the code gives 3, 1, 5.  The theorem is
  the run of both on that vector.
\<close>

theorem quicksort_differs_from_spec:
  "quicksort_spec [3, 5, 1 :: int] 0 3 = Some [1, 3, 5] \<and>
   quicksort [3, 5, 1 :: int] 0 3 = Some [3, 1, 5]"
  by (simp add: quicksort_351 quicksort_spec_351)

text \<open>
  Claim C7: on every range of a vector both sorts return a vector; and when the range is not
  empty, the partitioner, called as both sorts call it (the pivot is the value at the
  midpoint), returns \<open>m\<close> with \<open>b \<le> m < e\<close>, so that the ranges \<^verbatim>\<open>[b, m)\<close> and
  \<^verbatim>\<open>[m + 1, e)\<close> of the two recursive calls are both shorter than \<^verbatim>\<open>[b, e)\<close>.  (The
  termination proofs of \<open>quicksort\<close> and \<open>parallelQuicksort\<close> above rest on the same bound.)
\<close>

theorem sorts_terminate:
  assumes "0 \<le> b" "e \<le> int (length xs)"
  shows "(\<exists>ys. quicksort xs b e = Some ys) \<and>
         (\<exists>ys. parallelQuicksort g sched xs b e = Some ys) \<and>
         (b < e \<longrightarrow>
            (\<exists>m xs1. partition_it xs b e (xs ! nat (b + (e - b) div 2)) = Some (m, xs1) \<and>
               b \<le> m \<and> m < e \<and> m - b < e - b \<and> e - (m + 1) < e - b))"
proof -
  from quicksort_total[OF assms] obtain ys where ys: "quicksort xs b e = Some ys" by blast
  with parallelQuicksort_eq[OF assms, of g sched]
  have "parallelQuicksort g sched xs b e = Some ys" by simp
  moreover have "\<exists>m xs1. partition_it xs b e (xs ! nat (b + (e - b) div 2)) = Some (m, xs1) \<and>
               b \<le> m \<and> m < e \<and> m - b < e - b \<and> e - (m + 1) < e - b" if lt: "b < e"
  proof -
    note M = midpoint_deref[OF assms(1) lt assms(2)]
    from partition_it_post[of b e xs "nat (b + (e - b) div 2)" "xs ! nat (b + (e - b) div 2)"]
      assms lt M(2,3)
    obtain m xs1 where "partition_it xs b e (xs ! nat (b + (e - b) div 2)) = Some (m, xs1)"
      "b \<le> m" "m < e" by auto
    then show ?thesis by simp
  qed
  ultimately show ?thesis using ys by blast
qed

theorem sorts_terminate_witness:
  "(0::int) \<le> 0 \<and> (3::int) \<le> int (length [3, 5, 1 :: int]) \<and>
   (\<exists>ys. quicksort [3, 5, 1 :: int] 0 3 = Some ys) \<and>
   (\<exists>ys. parallelQuicksort 1 (\<lambda>_ _. True) [3, 5, 1 :: int] 0 3 = Some ys) \<and>
   (\<exists>m xs1. partition_it [3, 5, 1 :: int] 0 3 5 = Some (m, xs1) \<and> 0 \<le> m \<and> m < 3)"
  using sorts_terminate[of 0 3 "[3, 5, 1 :: int]" 1 "\<lambda>_ _. True"] by auto

text \<open>
  Claim C8: on a vector that is already non-descending, \<open>quicksort\<close> and \<open>parallelQuicksort\<close>
  return the vector as it was.  The empty vector and a vector of one element are such
  vectors.
\<close>

theorem sorted_input_unchanged:
  assumes "sorted xs"
  shows "quicksort xs 0 (int (length xs)) = Some xs \<and>
         parallelQuicksort g sched xs 0 (int (length xs)) = Some xs"
proof -
  from quicksort_whole[of xs] obtain ys where ys: "quicksort xs 0 (int (length xs)) = Some ys"
    by blast
  from quicksort_sorted[OF assms ys] ys have "quicksort xs 0 (int (length xs)) = Some xs" by simp
  with parallelQuicksort_eq[of 0 "int (length xs)" xs g sched] show ?thesis by simp
qed

theorem sorted_input_unchanged_witness:
  "sorted [1, 2, 2, 5 :: int] \<and>
   quicksort [1, 2, 2, 5 :: int] 0 4 = Some [1, 2, 2, 5] \<and>
   parallelQuicksort 1 (\<lambda>_ _. False) [1, 2, 2, 5 :: int] 0 4 = Some [1, 2, 2, 5] \<and>
   quicksort ([] :: int list) 0 0 = Some [] \<and>
   parallelQuicksort 256 (\<lambda>_ _. True) ([] :: int list) 0 0 = Some [] \<and>
   quicksort [7 :: int] 0 1 = Some [7] \<and>
   parallelQuicksort 256 (\<lambda>_ _. True) [7 :: int] 0 1 = Some [7]"
  using sorted_input_unchanged[of "[1, 2, 2, 5 :: int]" 1 "\<lambda>_ _. False"]
    sorted_input_unchanged[of "[] :: int list" 256 "\<lambda>_ _. True"]
    sorted_input_unchanged[of "[7 :: int]" 256 "\<lambda>_ _. True"]
  by simp

text \<open>
  Claim C9: on the vector 5, 3, 8, 1, 9, 2 both \<open>quicksort\<close> and \<open>parallelQuicksort\<close>, the latter
  with any granularity and any order of the forked tasks, return 1, 2, 3, 5, 8, 9.
\<close>

theorem example_sorted:
  "quicksort [5, 3, 8, 1, 9, 2 :: int] 0 6 = Some [1, 2, 3, 5, 8, 9] \<and>
   parallelQuicksort g sched [5, 3, 8, 1, 9, 2 :: int] 0 6 = Some [1, 2, 3, 5, 8, 9]"
  using parallelQuicksort_eq[of 0 6 "[5, 3, 8, 1, 9, 2 :: int]" g sched]
  by (simp add: quicksort_example)

text \<open>
  Claim C10: a call on the range \<^verbatim>\<open>[b, e)\<close> of a longer vector reads and writes the range
  only.  The vector is \<open>pre @ mid @ suf\<close> and the range is \<open>mid\<close>.  Both sorts leave
  \<open>pre @ s @ suf\<close>, where \<open>s\<close> is what \<open>quicksort\<close> makes of \<open>mid\<close> alone; the partitioner, for
  a pivot that occurs in \<open>mid\<close>, leaves \<open>pre @ s @ suf\<close> and returns the position moved by
  \<open>b\<close>, where \<open>s\<close> and the position are what it gives on \<open>mid\<close> alone.  So \<open>pre\<close> and \<open>suf\<close> are
  unchanged and have no influence on the result.  The two recursive calls of a sort are
  on \<^verbatim>\<open>[b, m)\<close> and \<^verbatim>\<open>[m + 1, e)\<close>, which are disjoint parts of \<^verbatim>\<open>[b, e)\<close>.
\<close>

theorem range_frame:
  assumes "b = int (length pre)" "e = b + int (length mid)"
  shows "(\<exists>s. quicksort mid 0 (int (length mid)) = Some s \<and> length s = length mid \<and>
            quicksort (pre @ mid @ suf) b e = Some (pre @ s @ suf) \<and>
            parallelQuicksort g sched (pre @ mid @ suf) b e = Some (pre @ s @ suf)) \<and>
         (ref \<in> set mid \<longrightarrow>
            (\<exists>m s. partition_it mid 0 (int (length mid)) ref = Some (m, s) \<and>
               length s = length mid \<and>
               partition_it (pre @ mid @ suf) b e ref = Some (b + m, pre @ s @ suf))) \<and>
         (b < e \<longrightarrow>
            (\<exists>m xs1. partition_it (pre @ mid @ suf) b e
                        ((pre @ mid @ suf) ! nat (b + (e - b) div 2)) = Some (m, xs1) \<and>
               b \<le> m \<and> m < e \<and> {b..<m} \<inter> {m + 1..<e} = {} \<and>
               {b..<m} \<union> {m + 1..<e} \<subseteq> {b..<e} \<and>
               quicksort (pre @ mid @ suf) b e =
                 Option.bind (quicksort xs1 b m) (\<lambda>xs2. quicksort xs2 (m + 1) e) \<and>
               (\<not> e - b \<le> int g \<longrightarrow>
                  parallelQuicksort g sched (pre @ mid @ suf) b e =
                    (if sched b e
                     then Option.bind (parallelQuicksort 256 sched xs1 b m)
                            (\<lambda>xs2. parallelQuicksort 256 sched xs2 (m + 1) e)
                     else Option.bind (parallelQuicksort 256 sched xs1 (m + 1) e)
                            (\<lambda>xs2. parallelQuicksort 256 sched xs2 b m)))))"
proof -
  let ?xs = "pre @ mid @ suf"
  have valid: "0 \<le> b" "e \<le> int (length ?xs)" using assms by simp_all
  have A: "\<exists>s. quicksort mid 0 (int (length mid)) = Some s \<and> length s = length mid \<and>
            quicksort ?xs b e = Some (pre @ s @ suf) \<and>
            parallelQuicksort g sched ?xs b e = Some (pre @ s @ suf)"
  proof -
    from quicksort_whole[of mid] obtain s where
      s: "quicksort mid 0 (int (length mid)) = Some s" "length s = length mid" by blast
    from quicksort_embed[OF s(1), of pre suf] assms
    have q: "quicksort ?xs b e = Some (pre @ s @ suf)" by simp
    with parallelQuicksort_eq[OF valid, of g sched] s show ?thesis by simp
  qed
  have B: "\<exists>m s. partition_it mid 0 (int (length mid)) ref = Some (m, s) \<and>
               length s = length mid \<and>
               partition_it ?xs b e ref = Some (b + m, pre @ s @ suf)" if "ref \<in> set mid"
  proof -
    from that obtain k where k: "k < length mid" "mid ! k = ref"
      by (auto simp: in_set_conv_nth)
    from partition_it_whole[OF k]
    obtain m s where p: "partition_it mid 0 (int (length mid)) ref = Some (m, s)"
      "length s = length mid" by blast
    with partition_it_embed[OF p(1), of pre suf] assms show ?thesis by simp
  qed
  have C: "\<exists>m xs1. partition_it ?xs b e (?xs ! nat (b + (e - b) div 2)) = Some (m, xs1) \<and>
               b \<le> m \<and> m < e \<and> {b..<m} \<inter> {m + 1..<e} = {} \<and>
               {b..<m} \<union> {m + 1..<e} \<subseteq> {b..<e} \<and>
               quicksort ?xs b e =
                 Option.bind (quicksort xs1 b m) (\<lambda>xs2. quicksort xs2 (m + 1) e) \<and>
               (\<not> e - b \<le> int g \<longrightarrow>
                  parallelQuicksort g sched ?xs b e =
                    (if sched b e
                     then Option.bind (parallelQuicksort 256 sched xs1 b m)
                            (\<lambda>xs2. parallelQuicksort 256 sched xs2 (m + 1) e)
                     else Option.bind (parallelQuicksort 256 sched xs1 (m + 1) e)
                            (\<lambda>xs2. parallelQuicksort 256 sched xs2 b m)))" if lt: "b < e"
  proof -
    let ?ref = "?xs ! nat (b + (e - b) div 2)"
    note M = midpoint_deref[OF valid(1) lt valid(2)]
    from partition_it_post[of b e ?xs "nat (b + (e - b) div 2)" ?ref] valid lt M(2,3)
    obtain m xs1 where p: "partition_it ?xs b e ?ref = Some (m, xs1)" "b \<le> m" "m < e"
      by auto
    have d: "{b..<m} \<inter> {m + 1..<e} = {}" "{b..<m} \<union> {m + 1..<e} \<subseteq> {b..<e}"
      using p(2,3) by auto
    have q: "quicksort ?xs b e =
               Option.bind (quicksort xs1 b m) (\<lambda>xs2. quicksort xs2 (m + 1) e)"
      using quicksort_step[OF lt M(1) p(1)] by (simp only: case_option_bind)
    have pq: "parallelQuicksort g sched ?xs b e =
                    (if sched b e
                     then Option.bind (parallelQuicksort 256 sched xs1 b m)
                            (\<lambda>xs2. parallelQuicksort 256 sched xs2 (m + 1) e)
                     else Option.bind (parallelQuicksort 256 sched xs1 (m + 1) e)
                            (\<lambda>xs2. parallelQuicksort 256 sched xs2 b m))" if "\<not> e - b \<le> int g"
      using parallelQuicksort_step[OF lt that M(1) p(1), of sched]
      by (simp only: case_option_bind)
    from p d q pq show ?thesis by blast
  qed
  from A B C show ?thesis by blast
qed

theorem range_frame_witness:
  "(1::int) = int (length [9 :: int]) \<and> (4::int) = 1 + int (length [3, 5, 1 :: int]) \<and>
   (\<exists>s. quicksort [3, 5, 1 :: int] 0 3 = Some s \<and> length s = 3 \<and>
       quicksort ([9] @ [3, 5, 1] @ [0]) 1 4 = Some ([9] @ s @ [0]) \<and>
       parallelQuicksort 1 (\<lambda>_ _. False) ([9] @ [3, 5, 1] @ [0]) 1 4 = Some ([9] @ s @ [0])) \<and>
   (5::int) \<in> set [3, 5, 1] \<and>
   (\<exists>m s. partition_it [3, 5, 1 :: int] 0 3 5 = Some (m, s) \<and> length s = 3 \<and>
       partition_it ([9] @ [3, 5, 1] @ [0]) 1 4 5 = Some (1 + m, [9] @ s @ [0]))"
  using range_frame[of 1 "[9 :: int]" 4 "[3, 5, 1 :: int]" "[0]" 1 "\<lambda>_ _. False" 5]
  by auto

end
